theory Spec2Isabelle
  imports Main
begin

section \<open>Portwatcher listener API: the ingestion handlers of app/main.py\<close>

text \<open>
  The module is one file: two POST handlers (\<open>ingest\<close>, \<open>log_line\<close>) that format a
  line and hand it to \<open>write_log_line\<close>, which appends it to \<open>LOG_FILE\<close> and swallows
  every failure. The handlers are embedded as functions from a request and a world
  (clock, log file, state of the destination, error stream) to a result and the
  world afterwards.
\<close>

subsection \<open>Strings\<close>

text \<open>
  A Python \<open>str\<close> is a sequence of Unicode code points (\<open>ustr\<close>). Request bodies are
  \<open>bytes\<close>, and header values are bytes decoded as Latin-1 by the framework: both are
  HOL strings, whose characters are the 256 byte values. \<open>ascii\<close> reads a byte string
  as the \<open>str\<close> with the same code points.
\<close>

type_synonym ustr = "nat list"

definition ascii :: "string \<Rightarrow> ustr" where
  "ascii s = map of_char s"

text \<open>\<open>str.isspace\<close> of one code point: the characters \<open>str.strip()\<close> removes.\<close>

definition py_isspace :: "nat \<Rightarrow> bool" where
  "py_isspace c \<longleftrightarrow>
     (9 \<le> c \<and> c \<le> 13) \<or> (28 \<le> c \<and> c \<le> 32) \<or> c = 0x85 \<or> c = 0xA0 \<or> c = 0x1680 \<or>
     (0x2000 \<le> c \<and> c \<le> 0x200A) \<or> c = 0x2028 \<or> c = 0x2029 \<or> c = 0x202F \<or>
     c = 0x205F \<or> c = 0x3000"

definition strip_by :: "('a \<Rightarrow> bool) \<Rightarrow> 'a list \<Rightarrow> 'a list" where
  "strip_by sp s = rev (dropWhile sp (rev (dropWhile sp s)))"

definition py_strip :: "ustr \<Rightarrow> ustr" where
  "py_strip s = strip_by py_isspace s"

text \<open>The same operations on a header value (code points below 256).\<close>

definition str_strip :: "string \<Rightarrow> string" where
  "str_strip s = strip_by (\<lambda>c. py_isspace (of_char c)) s"

definition char_lower :: "char \<Rightarrow> char" where
  "char_lower c =
     (let n = (of_char c :: nat)
      in if (65 \<le> n \<and> n \<le> 90) \<or> (192 \<le> n \<and> n \<le> 222 \<and> n \<noteq> 215)
         then char_of (n + 32) else c)"

definition str_lower :: "string \<Rightarrow> string" where
  "str_lower s = map char_lower s"

text \<open>\<open>s.split(sep)[0]\<close>: the text before the first separator, all of it when there is none.\<close>

definition split_first :: "char \<Rightarrow> string \<Rightarrow> string" where
  "split_first sep s = takeWhile (\<lambda>c. c \<noteq> sep) s"

subsection \<open>Decimal and hexadecimal digits\<close>

text \<open>The code point of the digit \<open>d\<close>: \<open>0\<close>..\<open>9\<close>, then \<open>a\<close>..\<open>f\<close>.\<close>

definition digit_code :: "nat \<Rightarrow> nat" where
  "digit_code d = (if d < 10 then 48 + d else 87 + d)"

function dec :: "nat \<Rightarrow> ustr" where
  "dec n = (if n < 10 then [digit_code n] else dec (n div 10) @ [digit_code (n mod 10)])"
  by pat_completeness auto
termination
  by (relation "measure (\<lambda>n. n)") auto

text \<open>\<open>"%0wd" % n\<close> for a non-negative \<open>n\<close>.\<close>

definition zpad :: "nat \<Rightarrow> nat \<Rightarrow> ustr" where
  "zpad w n = replicate (w - length (dec n)) 48 @ dec n"

subsection \<open>The timestamp: \<open>datetime.utcnow().isoformat() + "Z"\<close>\<close>

record datetime =
  year :: nat
  month :: nat
  day :: nat
  hour :: nat
  minute :: nat
  second :: nat
  microsecond :: nat

text \<open>
  \<open>datetime.isoformat()\<close> of a naive datetime: \<open>%04d-%02d-%02dT%02d:%02d:%02d\<close>, followed
  by \<open>.%06d\<close> only when the microsecond is not zero.
\<close>

definition isoformat :: "datetime \<Rightarrow> ustr" where
  "isoformat d =
     zpad 4 (year d) @ ascii ''-'' @ zpad 2 (month d) @ ascii ''-'' @ zpad 2 (day d) @
     ascii ''T'' @
     zpad 2 (hour d) @ ascii '':'' @ zpad 2 (minute d) @ ascii '':'' @ zpad 2 (second d) @
     (if microsecond d \<noteq> 0 then ascii ''.'' @ zpad 6 (microsecond d) else [])"



definition is_digit :: "nat \<Rightarrow> bool" where
  "is_digit c \<longleftrightarrow> 48 \<le> c \<and> c \<le> 57"





subsection \<open>\<open>bytes.decode("utf-8", errors="replace")\<close>\<close>

text \<open>
  CPython's decoder: a well-formed sequence gives its code point; an invalid start
  byte, or a lead byte with the well-formed part of its continuation, is replaced by
  one U+FFFD and decoding resumes at the first byte that did not fit; a sequence cut
  off by the end of the data is replaced by one U+FFFD. It never fails.
\<close>

definition is_cont :: "nat \<Rightarrow> bool" where
  "is_cont b \<longleftrightarrow> 128 \<le> b \<and> b < 192"

fun decode_utf8 :: "nat list \<Rightarrow> ustr" where
  "decode_utf8 [] = []"
| "decode_utf8 (b0 # bs) =
     (if b0 < 128 then b0 # decode_utf8 bs
      else if b0 < 194 \<or> 245 \<le> b0 then 0xFFFD # decode_utf8 bs
      else if b0 < 224 then
        (case bs of
           [] \<Rightarrow> [0xFFFD]
         | b1 # bs1 \<Rightarrow>
             if is_cont b1 then ((b0 - 192) * 64 + (b1 - 128)) # decode_utf8 bs1
             else 0xFFFD # decode_utf8 bs)
      else if b0 < 240 then
        (case bs of
           [] \<Rightarrow> [0xFFFD]
         | b1 # bs1 \<Rightarrow>
             if \<not> is_cont b1 \<or> (b0 = 224 \<and> b1 < 160) \<or> (b0 = 237 \<and> 160 \<le> b1)
             then 0xFFFD # decode_utf8 bs
             else
               (case bs1 of
                  [] \<Rightarrow> [0xFFFD]
                | b2 # bs2 \<Rightarrow>
                    if is_cont b2
                    then ((b0 - 224) * 4096 + (b1 - 128) * 64 + (b2 - 128)) # decode_utf8 bs2
                    else 0xFFFD # decode_utf8 bs1))
      else
        (case bs of
           [] \<Rightarrow> [0xFFFD]
         | b1 # bs1 \<Rightarrow>
             if \<not> is_cont b1 \<or> (b0 = 240 \<and> b1 < 144) \<or> (b0 = 244 \<and> 144 \<le> b1)
             then 0xFFFD # decode_utf8 bs
             else
               (case bs1 of
                  [] \<Rightarrow> [0xFFFD]
                | b2 # bs2 \<Rightarrow>
                    if \<not> is_cont b2 then 0xFFFD # decode_utf8 bs1
                    else
                      (case bs2 of
                         [] \<Rightarrow> [0xFFFD]
                       | b3 # bs3 \<Rightarrow>
                           if is_cont b3
                           then ((b0 - 240) * 262144 + (b1 - 128) * 4096 + (b2 - 128) * 64 +
                                 (b3 - 128)) # decode_utf8 bs3
                           else 0xFFFD # decode_utf8 bs2))))"

definition decode_replace :: "string \<Rightarrow> ustr" where
  "decode_replace body = decode_utf8 (map of_char body)"

subsection \<open>JSON values and \<open>json.dumps(..., separators=(",", ":"))\<close>\<close>

text \<open>
  What \<open>await request.json()\<close> can return: \<open>None\<close>, a \<open>bool\<close>, an \<open>int\<close>, a \<open>float\<close>, a
  \<open>str\<close>, a \<open>list\<close> or a \<open>dict\<close> with \<open>str\<close> keys. A \<open>dict\<close> is kept as the list of its
  items in insertion order. Floating point is not modelled: a \<open>float\<close> is identified by
  the text the encoder writes for it (\<open>float.__repr__\<close>, or \<open>NaN\<close>, \<open>Infinity\<close>,
  \<open>-Infinity\<close>).
\<close>

datatype json =
  JNull
| JBool bool
| JInt int
| JFloat ustr
| JStr ustr
| JArr "json list"
| JObj "(ustr \<times> json) list"

text \<open>
  \<open>py_encode_basestring_ascii\<close> (\<open>ensure_ascii=True\<close>, the default): the quote and the
  backslash are escaped, printable ASCII is copied, the control characters with a short
  escape use it, every other code point below 0x10000 is written as a backslash, \<open>u\<close> and
  four hexadecimal digits, and a code point above as a surrogate pair of two such escapes.
\<close>

definition hex4 :: "nat \<Rightarrow> ustr" where
  "hex4 n =
     [digit_code (n div 4096 mod 16), digit_code (n div 256 mod 16),
      digit_code (n div 16 mod 16), digit_code (n mod 16)]"

definition uescape :: "nat \<Rightarrow> ustr" where
  "uescape n = [0x5C, 0x75] @ hex4 n"

definition escape_char :: "nat \<Rightarrow> ustr" where
  "escape_char c =
     (if c = 0x22 then [0x5C, 0x22]
      else if c = 0x5C then [0x5C, 0x5C]
      else if c = 0x0A then [0x5C, 0x6E]
      else if c = 0x0D then [0x5C, 0x72]
      else if c = 0x09 then [0x5C, 0x74]
      else if c = 0x08 then [0x5C, 0x62]
      else if c = 0x0C then [0x5C, 0x66]
      else if 0x20 \<le> c \<and> c \<le> 0x7E then [c]
      else if c < 0x10000 then uescape c
      else uescape (0xD800 + (c - 0x10000) div 1024 mod 1024) @
           uescape (0xDC00 + (c - 0x10000) mod 1024))"

definition encode_basestring_ascii :: "ustr \<Rightarrow> ustr" where
  "encode_basestring_ascii s = [0x22] @ concat (map escape_char s) @ [0x22]"

text \<open>\<open>str(i)\<close> of an \<open>int\<close>.\<close>

definition int_str :: "int \<Rightarrow> ustr" where
  "int_str i = (if i < 0 then ascii ''-'' @ dec (nat (- i)) else dec (nat i))"

fun json_dumps :: "json \<Rightarrow> ustr"
  and dumps_items :: "json list \<Rightarrow> ustr"
  and dumps_members :: "(ustr \<times> json) list \<Rightarrow> ustr" where
  "json_dumps JNull = ascii ''null''"
| "json_dumps (JBool b) = (if b then ascii ''true'' else ascii ''false'')"
| "json_dumps (JInt i) = int_str i"
| "json_dumps (JFloat t) = t"
| "json_dumps (JStr s) = encode_basestring_ascii s"
| "json_dumps (JArr xs) = ascii ''['' @ dumps_items xs @ ascii '']''"
| "json_dumps (JObj kvs) = ascii ''{'' @ dumps_members kvs @ ascii ''}''"
| "dumps_items [] = []"
| "dumps_items [x] = json_dumps x"
| "dumps_items (x # y # ys) = json_dumps x @ ascii '','' @ dumps_items (y # ys)"
| "dumps_members [] = []"
| "dumps_members [(k, v)] = encode_basestring_ascii k @ ascii '':'' @ json_dumps v"
| "dumps_members ((k, v) # m # ms) =
     encode_basestring_ascii k @ ascii '':'' @ json_dumps v @ ascii '','' @
     dumps_members (m # ms)"

subsection \<open>Dictionaries\<close>

text \<open>
  \<open>d[k] = v\<close> on an insertion-ordered \<open>dict\<close>: an existing key keeps its position and
  takes the new value, a new key goes to the end.
\<close>

fun dict_setitem :: "'k \<Rightarrow> 'v \<Rightarrow> ('k \<times> 'v) list \<Rightarrow> ('k \<times> 'v) list" where
  "dict_setitem k v [] = [(k, v)]"
| "dict_setitem k v ((k', v') # kvs) =
     (if k' = k then (k', v) # kvs else (k', v') # dict_setitem k v kvs)"

text \<open>\<open>d.update(other)\<close>: the items of \<open>other\<close> are stored one by one, in order.\<close>

definition dict_update :: "('k \<times> 'v) list \<Rightarrow> ('k \<times> 'v) list \<Rightarrow> ('k \<times> 'v) list" where
  "dict_update d other = fold (\<lambda>(k, v). dict_setitem k v) other d"

datatype exn = TypeError ustr

fun py_type_name :: "json \<Rightarrow> string" where
  "py_type_name JNull = ''NoneType''"
| "py_type_name (JBool b) = ''bool''"
| "py_type_name (JInt i) = ''int''"
| "py_type_name (JFloat t) = ''float''"
| "py_type_name (JStr s) = ''str''"
| "py_type_name (JArr xs) = ''list''"
| "py_type_name (JObj kvs) = ''dict''"

text \<open>
  The display \<open>{"ts": ts, **body}\<close>: a new dict holding \<open>ts\<close>, updated with the items of
  \<open>body\<close>; unpacking anything but a mapping raises \<open>TypeError\<close>.
\<close>

fun ts_merged :: "ustr \<Rightarrow> json \<Rightarrow> exn + (ustr \<times> json) list" where
  "ts_merged ts (JObj kvs) = Inr (dict_update [(ascii ''ts'', JStr ts)] kvs)"
| "ts_merged ts body =
     Inl (TypeError
       (ascii ([CHR 0x27] @ py_type_name body @ [CHR 0x27] @ '' object is not a mapping'')))"

subsection \<open>The world, and \<open>write_log_line\<close>\<close>

text \<open>
  The destination either takes the append, or \<open>open\<close> or \<open>write\<close> raises an exception
  (\<open>Failing msg n\<close>: \<open>str(exc)\<close> is \<open>msg\<close>, and \<open>n\<close> characters had reached the file before
  it was raised; \<open>n = 0\<close> when \<open>open\<close> itself fails). \<open>log_file\<close> is the text of the file,
  \<open>stderr\<close> the lines printed to \<open>sys.stderr\<close>, \<open>clock\<close> what \<open>datetime.utcnow()\<close> returns.
\<close>

datatype destination = Writable | Failing ustr nat

record world =
  clock :: datetime
  log_file :: ustr
  dest :: destination
  stderr :: "ustr list"

definition write_log_line :: "ustr \<Rightarrow> world \<Rightarrow> world" where
  "write_log_line line w =
     (case dest w of
        Writable \<Rightarrow> w\<lparr>log_file := log_file w @ line @ [10]\<rparr>
      | Failing msg n \<Rightarrow>
          w\<lparr>log_file := log_file w @ take n (line @ [10]),
            stderr := stderr w @ [ascii ''[listener] Failed to write log: '' @ msg]\<rparr>)"

subsection \<open>The handlers\<close>

text \<open>
  A request: the value of its \<open>content-type\<close> header (\<open>None\<close> when it has none) and its
  body. A response: status code and body. \<open>request_json\<close>, the first argument of
  \<open>ingest\<close>, is the framework's \<open>await request.json()\<close> as a function of the body:
  \<open>None\<close> where it raises.
\<close>

record request =
  content_type :: "string option"
  body :: string

record response =
  status_code :: nat
  content :: string

definition media_type :: "request \<Rightarrow> string" where
  "media_type r =
     str_lower (str_strip (split_first (CHR '';'')
       (case content_type r of None \<Rightarrow> [] | Some h \<Rightarrow> h)))"

definition timestamp :: "world \<Rightarrow> ustr" where
  "timestamp w = isoformat (clock w) @ ascii ''Z''"

definition text_payload :: "request \<Rightarrow> ustr" where
  "text_payload r = py_strip (decode_replace (body r))"

text \<open>The f-string \<open>f"{ts} {payload}"\<close>.\<close>

definition text_line :: "ustr \<Rightarrow> ustr \<Rightarrow> ustr" where
  "text_line ts payload = ts @ ascii '' '' @ payload"

definition ingest ::
  "(string \<Rightarrow> json option) \<Rightarrow> request \<Rightarrow> world \<Rightarrow> (exn + response) \<times> world" where
  "ingest request_json r w =
     (let ts = timestamp w in
      if media_type r = ''application/json'' then
        (case request_json (body r) of
           None \<Rightarrow> (Inr \<lparr>status_code = 400, content = ''invalid json''\<rparr>, w)
         | Some parsed \<Rightarrow>
             (case ts_merged ts parsed of
                Inl e \<Rightarrow> (Inl e, w)
              | Inr d \<Rightarrow>
                  (Inr \<lparr>status_code = 202, content = []\<rparr>,
                   write_log_line (json_dumps (JObj d)) w)))
      else
        (let payload = text_payload r in
         if payload = [] then (Inr \<lparr>status_code = 400, content = ''empty body''\<rparr>, w)
         else (Inr \<lparr>status_code = 202, content = []\<rparr>,
               write_log_line (text_line ts payload) w)))"

text \<open>\<open>log_line\<close> returns the dict \<open>{"status": "ok"}\<close>.\<close>

definition log_line :: "request \<Rightarrow> world \<Rightarrow> (ustr \<times> json) list \<times> world" where
  "log_line r w =
     ([(ascii ''status'', JStr (ascii ''ok''))],
      write_log_line (text_line (timestamp w) (text_payload r)) w)"

text \<open>
  What the framework sends for a returned dict: status 200 and the dict as compact JSON
  (the bytes of its text, which is ASCII for the dict above).
\<close>

definition json_response :: "(ustr \<times> json) list \<Rightarrow> response" where
  "json_response d = \<lparr>status_code = 200, content = map char_of (json_dumps (JObj d))\<rparr>"

definition post_logline :: "request \<Rightarrow> world \<Rightarrow> response \<times> world" where
  "post_logline r w = (json_response (fst (log_line r w)), snd (log_line r w))"

subsection \<open>Reading a log line back\<close>

text \<open>
  The reader of the lines \<open>json.dumps\<close> writes: \<open>json.loads\<close> on the compact form (no
  white space between tokens). Strings are scanned as \<open>scanstring\<close> does in strict mode,
  numbers by the pattern \<open>(-?(?:0|[1-9][0-9]*))(\.[0-9]+)?([eE][-+]?[0-9]+)?\<close>; a number with
  a fraction or an exponent is a \<open>float\<close>, kept as its text. An object becomes the \<open>dict\<close>
  of its pairs. The recursion of the scanner is bounded by fuel; \<open>json_loads\<close> gives it
  the length of the text, more than any text needs.
\<close>

definition hex_val :: "nat \<Rightarrow> nat option" where
  "hex_val c =
     (if 48 \<le> c \<and> c \<le> 57 then Some (c - 48)
      else if 97 \<le> c \<and> c \<le> 102 then Some (c - 87)
      else if 65 \<le> c \<and> c \<le> 70 then Some (c - 55)
      else None)"

fun hex4_val :: "ustr \<Rightarrow> nat option" where
  "hex4_val (a # b # c # d # rest) =
     (case (hex_val a, hex_val b, hex_val c, hex_val d) of
        (Some x, Some y, Some z, Some u) \<Rightarrow> Some (x * 4096 + y * 256 + z * 16 + u)
      | _ \<Rightarrow> None)"
| "hex4_val s = None"

definition short_escape :: "nat \<Rightarrow> nat option" where
  "short_escape e =
     (if e = 0x22 then Some 0x22
      else if e = 0x5C then Some 0x5C
      else if e = 0x2F then Some 0x2F
      else if e = 0x62 then Some 0x08
      else if e = 0x66 then Some 0x0C
      else if e = 0x6E then Some 0x0A
      else if e = 0x72 then Some 0x0D
      else if e = 0x74 then Some 0x09
      else None)"

definition cons_result :: "'a \<Rightarrow> ('a list \<times> ustr) option \<Rightarrow> ('a list \<times> ustr) option" where
  "cons_result x res = map_option (\<lambda>(xs, rest). (x # xs, rest)) res"

text \<open>
  The characters of a string after its opening quote, up to the closing quote. A
  \<open>\uXXXX\<close> escape of a high surrogate that is followed by the escape of a low surrogate
  is read with it as one code point.
\<close>

fun scan_chars :: "ustr \<Rightarrow> (ustr \<times> ustr) option" where
  "scan_chars [] = None"
| "scan_chars (c # s) =
     (if c = 0x22 then Some ([], s)
      else if c = 0x5C then
        (case s of
           [] \<Rightarrow> None
         | e # s1 \<Rightarrow>
             if e = 0x75 then
               (case hex4_val s1 of
                  None \<Rightarrow> None
                | Some n \<Rightarrow>
                    if 0xD800 \<le> n \<and> n \<le> 0xDBFF \<and> take 2 (drop 4 s1) = [0x5C, 0x75] then
                      (case hex4_val (drop 6 s1) of
                         None \<Rightarrow> None
                       | Some m \<Rightarrow>
                           if 0xDC00 \<le> m \<and> m \<le> 0xDFFF
                           then cons_result (0x10000 + (n - 0xD800) * 1024 + (m - 0xDC00))
                                  (scan_chars (drop 10 s1))
                           else cons_result n (scan_chars (drop 4 s1)))
                    else cons_result n (scan_chars (drop 4 s1)))
             else
               (case short_escape e of
                  None \<Rightarrow> None
                | Some x \<Rightarrow> cons_result x (scan_chars s1)))
      else if c < 0x20 then None
      else cons_result c (scan_chars s))"

definition digits_val :: "ustr \<Rightarrow> nat" where
  "digits_val ds = foldl (\<lambda>n c. 10 * n + (c - 48)) 0 ds"

text \<open>The integer part: an optional minus sign, then \<open>0\<close> or a run of digits not starting with \<open>0\<close>.\<close>

definition scan_int :: "ustr \<Rightarrow> (ustr \<times> ustr) option" where
  "scan_int s =
     (let (sign, s1) = (case s of [] \<Rightarrow> ([], s) | c # r \<Rightarrow> if c = 0x2D then ([c], r) else ([], s))
      in case s1 of
           [] \<Rightarrow> None
         | c # r \<Rightarrow>
             if c = 48 then Some (sign @ [c], r)
             else if is_digit c then Some (sign @ takeWhile is_digit s1, dropWhile is_digit s1)
             else None)"

text \<open>The fraction: a point and at least one digit, or nothing.\<close>

definition scan_frac :: "ustr \<Rightarrow> ustr \<times> ustr" where
  "scan_frac s =
     (case s of
        c # d # r \<Rightarrow>
          if c = 0x2E \<and> is_digit d
          then (c # takeWhile is_digit (d # r), dropWhile is_digit (d # r))
          else ([], s)
      | _ \<Rightarrow> ([], s))"

text \<open>The exponent: \<open>e\<close> or \<open>E\<close>, an optional sign and at least one digit, or nothing.\<close>

definition scan_exp :: "ustr \<Rightarrow> ustr \<times> ustr" where
  "scan_exp s =
     (case s of
        [] \<Rightarrow> ([], s)
      | c # r \<Rightarrow>
          if c = 0x65 \<or> c = 0x45 then
            (let (sign, r1) =
               (case r of [] \<Rightarrow> ([], r) | x # r' \<Rightarrow> if x = 0x2B \<or> x = 0x2D then ([x], r') else ([], r))
             in case r1 of
                  [] \<Rightarrow> ([], s)
                | d # r2 \<Rightarrow>
                    if is_digit d
                    then (c # sign @ takeWhile is_digit r1, dropWhile is_digit r1)
                    else ([], s))
          else ([], s))"

definition int_val :: "ustr \<Rightarrow> int" where
  "int_val t =
     (case t of
        [] \<Rightarrow> 0
      | c # ds \<Rightarrow> if c = 0x2D then - int (digits_val ds) else int (digits_val t))"

definition scan_number :: "ustr \<Rightarrow> (json \<times> ustr) option" where
  "scan_number s =
     (case scan_int s of
        None \<Rightarrow> None
      | Some (i, s1) \<Rightarrow>
          (let (f, s2) = scan_frac s1; (e, s3) = scan_exp s2
           in if f = [] \<and> e = [] then Some (JInt (int_val i), s1)
              else Some (JFloat (i @ f @ e), s3)))"

definition scan_word :: "string \<Rightarrow> json \<Rightarrow> ustr \<Rightarrow> (json \<times> ustr) option" where
  "scan_word word v s =
     (if take (length word) s = ascii word then Some (v, drop (length word) s) else None)"

fun scan_value :: "nat \<Rightarrow> ustr \<Rightarrow> (json \<times> ustr) option"
  and scan_items :: "nat \<Rightarrow> ustr \<Rightarrow> (json list \<times> ustr) option"
  and scan_members :: "nat \<Rightarrow> ustr \<Rightarrow> ((ustr \<times> json) list \<times> ustr) option" where
  "scan_value 0 s = None"
| "scan_value (Suc fuel) s =
     (case s of
        [] \<Rightarrow> None
      | c # r \<Rightarrow>
          if c = 0x22 then map_option (\<lambda>(t, rest). (JStr t, rest)) (scan_chars r)
          else if c = 0x7B then
            (case r of
               [] \<Rightarrow> None
             | c' # r' \<Rightarrow>
                 if c' = 0x7D then Some (JObj [], r')
                 else map_option (\<lambda>(kvs, rest). (JObj (dict_update [] kvs), rest))
                        (scan_members fuel r))
          else if c = 0x5B then
            (case r of
               [] \<Rightarrow> None
             | c' # r' \<Rightarrow>
                 if c' = 0x5D then Some (JArr [], r')
                 else map_option (\<lambda>(xs, rest). (JArr xs, rest)) (scan_items fuel r))
          else if c = 0x6E then scan_word ''null'' JNull s
          else if c = 0x74 then scan_word ''true'' (JBool True) s
          else if c = 0x66 then scan_word ''false'' (JBool False) s
          else
            (case scan_number s of
               Some res \<Rightarrow> Some res
             | None \<Rightarrow>
                 if c = 0x4E then scan_word ''NaN'' (JFloat (ascii ''NaN'')) s
                 else if c = 0x49 then scan_word ''Infinity'' (JFloat (ascii ''Infinity'')) s
                 else if c = 0x2D then scan_word ''-Infinity'' (JFloat (ascii ''-Infinity'')) s
                 else None))"
| "scan_items 0 s = None"
| "scan_items (Suc fuel) s =
     (case scan_value fuel s of
        None \<Rightarrow> None
      | Some (v, r) \<Rightarrow>
          (case r of
             [] \<Rightarrow> None
           | c # r' \<Rightarrow>
               if c = 0x2C then cons_result v (scan_items fuel r')
               else if c = 0x5D then Some ([v], r')
               else None))"
| "scan_members 0 s = None"
| "scan_members (Suc fuel) s =
     (case s of
        [] \<Rightarrow> None
      | q # r \<Rightarrow>
          if q = 0x22 then
            (case scan_chars r of
               None \<Rightarrow> None
             | Some (k, r1) \<Rightarrow>
                 (case r1 of
                    [] \<Rightarrow> None
                  | c1 # r2 \<Rightarrow>
                      if c1 = 0x3A then
                        (case scan_value fuel r2 of
                           None \<Rightarrow> None
                         | Some (v, r3) \<Rightarrow>
                             (case r3 of
                                [] \<Rightarrow> None
                              | c3 # r4 \<Rightarrow>
                                  if c3 = 0x2C then cons_result (k, v) (scan_members fuel r4)
                                  else if c3 = 0x7D then Some ([(k, v)], r4)
                                  else None))
                      else None))
          else None)"

definition json_loads :: "ustr \<Rightarrow> json option" where
  "json_loads s =
     (case scan_value (length s) s of
        None \<Rightarrow> None
      | Some (v, rest) \<Rightarrow> if rest = [] then Some v else None)"

text \<open>
  The values the reader gives back unchanged: every string is Unicode text (no
  surrogate code point, nothing above U+10FFFF), every \<open>float\<close> is a number with a
  fraction or an exponent, or one of \<open>NaN\<close>, \<open>Infinity\<close>, \<open>-Infinity\<close>, and the keys of a
  \<open>dict\<close> are distinct.
\<close>

definition scalar_value :: "nat \<Rightarrow> bool" where
  "scalar_value c \<longleftrightarrow> c < 0xD800 \<or> (0xE000 \<le> c \<and> c < 0x110000)"

definition float_token :: "ustr \<Rightarrow> bool" where
  "float_token t \<longleftrightarrow>
     t = ascii ''NaN'' \<or> t = ascii ''Infinity'' \<or> t = ascii ''-Infinity'' \<or>
     scan_number t = Some (JFloat t, [])"

fun json_ok :: "json \<Rightarrow> bool"
  and items_ok :: "json list \<Rightarrow> bool"
  and members_ok :: "(ustr \<times> json) list \<Rightarrow> bool" where
  "json_ok JNull = True"
| "json_ok (JBool b) = True"
| "json_ok (JInt i) = True"
| "json_ok (JFloat t) = float_token t"
| "json_ok (JStr s) = list_all scalar_value s"
| "json_ok (JArr xs) = items_ok xs"
| "json_ok (JObj kvs) = (distinct (map fst kvs) \<and> members_ok kvs)"
| "items_ok [] = True"
| "items_ok (x # xs) = (json_ok x \<and> items_ok xs)"
| "members_ok [] = True"
| "members_ok ((k, v) # kvs) = (list_all scalar_value k \<and> json_ok v \<and> members_ok kvs)"

subsection \<open>Sample inputs\<close>

text \<open>
  A clock reading, a world with a writable and one with a failing destination, and a
  fragment of the framework's JSON decoding that covers the bodies of the examples.
\<close>

definition sample_clock :: datetime where
  "sample_clock =
     \<lparr>year = 2024, month = 1, day = 2, hour = 3, minute = 4, second = 5, microsecond = 6\<rparr>"

definition sample_world :: world where
  "sample_world = \<lparr>clock = sample_clock, log_file = [], dest = Writable, stderr = []\<rparr>"

definition failing_world :: world where
  "failing_world = sample_world\<lparr>dest := Failing (ascii ''No space left on device'') 0\<rparr>"

definition sample_json :: "string \<Rightarrow> json option" where
  \<open>sample_json b =
     (if b = ''{"a":1}'' then Some (JObj [(ascii ''a'', JInt 1)])
      else if b = ''{"a":1,"ts":5}'' then Some (JObj [(ascii ''a'', JInt 1), (ascii ''ts'', JInt 5)])
      else if b = ''[1]'' then Some (JArr [JInt 1])
      else None)\<close>

section \<open>Properties\<close>

subsection \<open>The timestamp has the ISO-8601 shape\<close>

declare dec.simps [simp del]

lemma digit_code_is_digit: "d < 10 \<Longrightarrow> is_digit (digit_code d)"
  by (simp add: digit_code_def is_digit_def)

lemma dec_digits: "c \<in> set (dec n) \<Longrightarrow> is_digit c"
proof (induction n arbitrary: c rule: dec.induct)
  case (1 n)
  show ?case
  proof (cases "n < 10")
    case True
    with "1.prems" show ?thesis
      by (simp add: dec.simps [of n] digit_code_is_digit)
  next
    case False
    with "1.prems" "1.IH" show ?thesis
      by (auto simp: dec.simps [of n] digit_code_is_digit)
  qed
qed











subsection \<open>Dictionary updates\<close>

lemma dict_setitem_map_of: "map_of (dict_setitem k v d) = (map_of d)(k \<mapsto> v)"
  by (induction d) (auto simp: fun_eq_iff)

lemma dict_setitem_keys: "fst ` set (dict_setitem k v d) = insert k (fst ` set d)"
proof (induction d)
  case Nil
  show ?case by simp
next
  case (Cons p d)
  obtain k' v' where p: "p = (k', v')" by (cases p)
  show ?case
    using Cons.IH by (cases "k' = k") (simp_all add: p insert_commute)
qed

lemma dict_setitem_distinct:
  "distinct (map fst d) \<Longrightarrow> distinct (map fst (dict_setitem k v d))"
proof (induction d)
  case Nil
  show ?case by simp
next
  case (Cons p d)
  obtain k' v' where p: "p = (k', v')" by (cases p)
  from Cons.prems have d: "distinct (map fst d)" and k': "k' \<notin> fst ` set d"
    by (simp_all add: p)
  show ?case
  proof (cases "k' = k")
    case True
    with Cons.prems show ?thesis by (simp add: p)
  next
    case False
    with k' have "k' \<notin> fst ` set (dict_setitem k v d)"
      by (simp add: dict_setitem_keys)
    with False Cons.IH [OF d] show ?thesis by (simp add: p)
  qed
qed

lemma dict_setitem_first: "d \<noteq> [] \<Longrightarrow> dict_setitem k v d \<noteq> [] \<and> fst (hd (dict_setitem k v d)) = fst (hd d)"
  by (cases d) (auto split: if_splits)

lemma dict_update_map_of: "map_of (dict_update d other) = map_of d ++ map_of (rev other)"
  unfolding dict_update_def
proof (induction other arbitrary: d)
  case Nil
  show ?case by simp
next
  case (Cons p other)
  obtain k v where p: "p = (k, v)" by (cases p)
  show ?case
    by (simp add: p Cons.IH dict_setitem_map_of fun_eq_iff map_add_def split: option.splits)
qed

lemma dict_update_keys: "fst ` set (dict_update d other) = fst ` set d \<union> fst ` set other"
  unfolding dict_update_def
  by (induction other arbitrary: d) (auto simp: dict_setitem_keys split: prod.splits)

lemma dict_update_distinct:
  "distinct (map fst d) \<Longrightarrow> distinct (map fst (dict_update d other))"
  unfolding dict_update_def
  by (induction other arbitrary: d) (auto simp: dict_setitem_distinct split: prod.splits)

lemma dict_update_first:
  "d \<noteq> [] \<Longrightarrow> dict_update d other \<noteq> [] \<and> fst (hd (dict_update d other)) = fst (hd d)"
  unfolding dict_update_def
proof (induction other arbitrary: d)
  case Nil
  then show ?case by simp
next
  case (Cons p other)
  obtain k v where p: "p = (k, v)" by (cases p)
  from dict_setitem_first [OF Cons.prems, of k v] Cons.IH [of "dict_setitem k v d"]
  show ?case by (simp add: p)
qed

lemma map_of_rev_distinct: "distinct (map fst xs) \<Longrightarrow> map_of (rev xs) = map_of xs"
proof (induction xs)
  case Nil
  show ?case by simp
next
  case (Cons p xs)
  obtain k v where p: "p = (k, v)" by (cases p)
  from Cons.prems have k: "map_of xs k = None"
    by (simp add: p map_of_eq_None_iff)
  from Cons.prems have "map_of (rev xs) = map_of xs"
    by (simp add: Cons.IH)
  with k show ?case
    by (auto simp: p fun_eq_iff map_add_def split: option.splits)
qed

subsection \<open>Evaluating the examples\<close>

lemma replicate_num: "replicate (numeral k) x = x # replicate (pred_numeral k) x"
  by (simp add: numeral_eq_Suc)

lemmas text_eval = ascii_def py_strip_def strip_by_def decode_replace_def py_isspace_def
  is_cont_def

lemmas header_eval = media_type_def split_first_def str_strip_def strip_by_def str_lower_def
  char_lower_def py_isspace_def char_of_def bit_Suc_0_iff

lemmas clock_eval = timestamp_def isoformat_def zpad_def dec.simps digit_code_def ascii_def
  replicate_num

lemma sample_timestamp: "timestamp sample_world = ascii ''2024-01-02T03:04:05.000006Z''"
  by (simp add: clock_eval sample_world_def sample_clock_def)


lemma write_log_line_writable:
  "dest w = Writable \<Longrightarrow> log_file (write_log_line line w) = log_file w @ line @ [10]"
  by (simp add: write_log_line_def)

subsection \<open>Responses that write nothing\<close>

text \<open>
  C5: a request to \<open>/ingest\<close> with JSON content type whose body does not parse gets
  status 400 with body \<open>invalid json\<close>, and the world, the log file with it, is unchanged.
\<close>

theorem ingest_invalid_json_400:
  assumes "media_type r = ''application/json''" and "request_json (body r) = None"
  shows "ingest request_json r w =
           (Inr \<lparr>status_code = 400, content = ''invalid json''\<rparr>, w) \<and>
         log_file (snd (ingest request_json r w)) = log_file w"
  using assms by (simp add: ingest_def)

theorem ingest_invalid_json_400_witness:
  \<open>media_type \<lparr>content_type = Some ''Application/JSON; charset=utf-8'', body = ''{"a":''\<rparr> =
     ''application/json'' \<and>
   sample_json ''{"a":'' = None \<and>
   ingest sample_json \<lparr>content_type = Some ''Application/JSON; charset=utf-8'', body = ''{"a":''\<rparr>
     sample_world =
     (Inr \<lparr>status_code = 400, content = ''invalid json''\<rparr>, sample_world)\<close>
proof -
  let ?r = \<open>\<lparr>content_type = Some ''Application/JSON; charset=utf-8'', body = ''{"a":''\<rparr>\<close>
  have m: "media_type ?r = ''application/json''" by (simp add: header_eval)
  have p: "sample_json (body ?r) = None" by (simp add: sample_json_def)
  from ingest_invalid_json_400 [of ?r sample_json sample_world, OF m p] m p
  show ?thesis by simp
qed

text \<open>
  C6: a request to \<open>/ingest\<close> with another content type whose body decodes and trims to
  the empty string gets status 400 with body \<open>empty body\<close>, and the world is unchanged.
\<close>

theorem ingest_empty_body_400:
  assumes "media_type r \<noteq> ''application/json''" and "py_strip (decode_replace (body r)) = []"
  shows "ingest request_json r w =
           (Inr \<lparr>status_code = 400, content = ''empty body''\<rparr>, w) \<and>
         log_file (snd (ingest request_json r w)) = log_file w"
  using assms by (simp add: ingest_def text_payload_def)

theorem ingest_empty_body_400_witness:
  "media_type \<lparr>content_type = Some ''text/plain'', body = '' \<newline>''\<rparr> \<noteq> ''application/json'' \<and>
   py_strip (decode_replace '' \<newline>'') = [] \<and>
   ingest sample_json \<lparr>content_type = Some ''text/plain'', body = '' \<newline>''\<rparr> sample_world =
     (Inr \<lparr>status_code = 400, content = ''empty body''\<rparr>, sample_world)"
proof -
  let ?r = "\<lparr>content_type = Some ''text/plain'', body = '' \<newline>''\<rparr>"
  have m: "media_type ?r \<noteq> ''application/json''" by (simp add: header_eval)
  have p: "py_strip (decode_replace (body ?r)) = []" by (simp add: text_eval)
  from ingest_empty_body_400 [of ?r sample_json sample_world, OF m p] m p
  show ?thesis by simp
qed

text \<open>
  C9: when the body of a JSON request parses to a value that is not an object, \<open>ingest\<close>
  does not return the 400 response: the dict display raises \<open>TypeError\<close>, which nothing
  catches, and nothing is written.
\<close>

theorem ingest_non_object_raises:
  assumes "media_type r = ''application/json''" and "request_json (body r) = Some v"
    and "\<forall>kvs. v \<noteq> JObj kvs"
  shows "ingest request_json r w =
           (Inl (TypeError
              (ascii ([CHR 0x27] @ py_type_name v @ [CHR 0x27] @ '' object is not a mapping''))),
            w) \<and>
         fst (ingest request_json r w) \<noteq> Inr \<lparr>status_code = 400, content = ''invalid json''\<rparr>"
  using assms by (cases v) (simp_all add: ingest_def)

theorem ingest_non_object_raises_witness:
  "media_type \<lparr>content_type = Some ''application/json'', body = ''[1]''\<rparr> = ''application/json'' \<and>
   sample_json ''[1]'' = Some (JArr [JInt 1]) \<and>
   ingest sample_json \<lparr>content_type = Some ''application/json'', body = ''[1]''\<rparr> sample_world =
     (Inl (TypeError (ascii ([CHR 0x27] @ ''list'' @ [CHR 0x27] @ '' object is not a mapping''))),
      sample_world)"
proof -
  let ?r = "\<lparr>content_type = Some ''application/json'', body = ''[1]''\<rparr>"
  have m: "media_type ?r = ''application/json''" by (simp add: header_eval)
  have p: "sample_json (body ?r) = Some (JArr [JInt 1])" by (simp add: sample_json_def)
  have n: "\<forall>kvs. JArr [JInt 1] \<noteq> JObj kvs" by simp
  from ingest_non_object_raises [of ?r sample_json "JArr [JInt 1]" sample_world, OF m p n] m p
  show ?thesis by simp
qed


subsection \<open>Text lines\<close>






text \<open>
  C10: when the body of a \<open>/logline\<close> request trims to the empty string, the line that
  \<open>log_line\<close> hands to \<open>write_log_line\<close> is the timestamp followed by one space, and a
  writable destination grows by the timestamp, the space and the newline.
\<close>

theorem logline_empty_payload_line:
  assumes "py_strip (decode_replace (body r)) = []"
  shows "snd (log_line r w) = write_log_line (timestamp w @ [32]) w \<and>
         (dest w = Writable \<longrightarrow>
            log_file (snd (log_line r w)) = log_file w @ timestamp w @ [32, 10])"
  using assms
  by (simp add: log_line_def text_payload_def text_line_def write_log_line_writable ascii_def)

theorem logline_empty_payload_line_witness:
  "py_strip (decode_replace '' \<newline> '') = [] \<and>
   log_file (snd (log_line \<lparr>content_type = None, body = '' \<newline> ''\<rparr> sample_world)) =
     ascii ''2024-01-02T03:04:05.000006Z \<newline>''"
proof -
  let ?r = "\<lparr>content_type = None, body = '' \<newline> ''\<rparr>"
  have p: "py_strip (decode_replace '' \<newline> '') = []" by (simp add: text_eval)
  then have p': "py_strip (decode_replace (body ?r)) = []" by simp
  have d: "dest sample_world = Writable" by (simp add: sample_world_def)
  have l: "log_file sample_world @ timestamp sample_world @ [32, 10] =
      ascii ''2024-01-02T03:04:05.000006Z \<newline>''"
    by (simp add: sample_timestamp) (simp add: ascii_def sample_world_def)
  from logline_empty_payload_line [of ?r sample_world, OF p'] d
  have "log_file (snd (log_line ?r sample_world)) =
      log_file sample_world @ timestamp sample_world @ [32, 10]"
    by blast
  with l have "log_file (snd (log_line ?r sample_world)) =
      ascii ''2024-01-02T03:04:05.000006Z \<newline>''"
    by (simp only:)
  with p show ?thesis by blast
qed

subsection \<open>The append writer\<close>

lemma ingest_dest_independent:
  "fst (ingest request_json r (w\<lparr>dest := d\<rparr>)) = fst (ingest request_json r w)"
  by (simp add: ingest_def timestamp_def Let_def split: option.splits sum.splits)

text \<open>
  C3: \<open>write_log_line\<close> appends the line and one newline to a writable destination. When
  the open or the write raises, the exception is caught: the message goes to the error
  stream, the function returns normally (its result is a world, it has no exceptional
  outcome), and the handlers' responses do not depend on the state of the destination, so
  the caller of an accepted request gets 202 or 200 all the same.
\<close>

theorem write_log_line_swallows_failure:
  "(dest w = Writable \<longrightarrow>
      write_log_line line w = w\<lparr>log_file := log_file w @ line @ [10]\<rparr>) \<and>
   (dest w = Failing msg n \<longrightarrow>
      stderr (write_log_line line w) =
        stderr w @ [ascii ''[listener] Failed to write log: '' @ msg] \<and>
      log_file (write_log_line line w) = log_file w @ take n (line @ [10])) \<and>
   fst (ingest request_json r (w\<lparr>dest := Failing msg n\<rparr>)) =
     fst (ingest request_json r (w\<lparr>dest := Writable\<rparr>)) \<and>
   fst (post_logline r (w\<lparr>dest := Failing msg n\<rparr>)) =
     fst (post_logline r (w\<lparr>dest := Writable\<rparr>))"
  by (simp add: write_log_line_def ingest_dest_independent post_logline_def log_line_def)

theorem write_log_line_swallows_failure_witness:
  "dest failing_world = Failing (ascii ''No space left on device'') 0 \<and>
   stderr (write_log_line (ascii ''x'') failing_world) =
     [ascii ''[listener] Failed to write log: No space left on device''] \<and>
   log_file (write_log_line (ascii ''x'') failing_world) = [] \<and>
   fst (ingest sample_json \<lparr>content_type = Some ''text/plain'', body = ''x''\<rparr> failing_world) =
     Inr \<lparr>status_code = 202, content = []\<rparr> \<and>
   status_code (fst (post_logline \<lparr>content_type = None, body = ''x''\<rparr> failing_world)) = 200"
proof -
  let ?r = "\<lparr>content_type = Some ''text/plain'', body = ''x''\<rparr>"
  let ?q = "\<lparr>content_type = None, body = ''x''\<rparr>"
  let ?m = "ascii ''No space left on device''"
  have d: "dest failing_world = Failing ?m 0"
    by (simp add: failing_world_def)
  have f: "failing_world = sample_world\<lparr>dest := Failing ?m 0\<rparr>"
    by (simp add: failing_world_def)
  have s: "sample_world\<lparr>dest := Writable\<rparr> = sample_world"
    by (simp add: sample_world_def)
  have e: "stderr failing_world = []" "log_file failing_world = []"
    by (simp_all add: failing_world_def sample_world_def)
  have i: "fst (ingest sample_json ?r sample_world) = Inr \<lparr>status_code = 202, content = []\<rparr>"
    by (simp add: ingest_def Let_def text_payload_def header_eval text_eval)
  have p: "status_code (fst (post_logline ?q sample_world)) = 200"
    by (simp add: post_logline_def json_response_def)
  note t = write_log_line_swallows_failure
      [where w = failing_world and line = "ascii ''x''" and msg = ?m and n = 0]
  from t d e have 1: "stderr (write_log_line (ascii ''x'') failing_world) =
      [ascii ''[listener] Failed to write log: No space left on device'']"
    by (simp add: ascii_def)
  from t d e have 2: "log_file (write_log_line (ascii ''x'') failing_world) = []"
    by simp
  from write_log_line_swallows_failure [where w = sample_world and msg = ?m and n = 0
      and request_json = sample_json and r = ?r]
  have 3: "fst (ingest sample_json ?r failing_world) = fst (ingest sample_json ?r sample_world)"
    by (simp only: f [symmetric] s)
  from write_log_line_swallows_failure [where w = sample_world and msg = ?m and n = 0
      and r = ?q]
  have 4: "fst (post_logline ?q failing_world) = fst (post_logline ?q sample_world)"
    by (simp only: f [symmetric] s)
  from d 1 2 3 4 i p show ?thesis by (simp only:)
qed

subsection \<open>JSON lines\<close>

lemma ts_merged_first:
  "hd (dict_update [(k, x)] kvs) = (k, the (map_of (dict_update [(k, x)] kvs) k))"
proof -
  from dict_update_first [of "[(k, x)]" kvs]
  obtain p ps where d: "dict_update [(k, x)] kvs = p # ps" and k: "fst p = k"
    by (cases "dict_update [(k, x)] kvs") auto
  then show ?thesis by (cases p) simp
qed

text \<open>
  C4: when the caller's object has a key \<open>ts\<close>, the logged object holds the caller's
  value under \<open>ts\<close>, not the server's timestamp: the dict display stores the timestamp
  first and the caller's items after it, so the caller's value replaces it (in first
  position), and that object is what is serialized and handed to \<open>write_log_line\<close>.
\<close>

theorem ingest_caller_ts_overwrites:
  assumes "media_type r = ''application/json''"
    and "request_json (body r) = Some (JObj kvs)"
    and "distinct (map fst kvs)"
    and "map_of kvs (ascii ''ts'') = Some v"
  shows "ingest request_json r w =
           (Inr \<lparr>status_code = 202, content = []\<rparr>,
            write_log_line
              (json_dumps (JObj (dict_update [(ascii ''ts'', JStr (timestamp w))] kvs))) w) \<and>
         map_of (dict_update [(ascii ''ts'', JStr (timestamp w))] kvs) (ascii ''ts'') = Some v \<and>
         hd (dict_update [(ascii ''ts'', JStr (timestamp w))] kvs) = (ascii ''ts'', v) \<and>
         distinct (map fst (dict_update [(ascii ''ts'', JStr (timestamp w))] kvs))"
proof -
  let ?d = "dict_update [(ascii ''ts'', JStr (timestamp w))] kvs"
  from assms(1,2) have 1: "ingest request_json r w =
      (Inr \<lparr>status_code = 202, content = []\<rparr>, write_log_line (json_dumps (JObj ?d)) w)"
    by (simp add: ingest_def Let_def del: json_dumps.simps)
  from assms(3,4) have 2: "map_of ?d (ascii ''ts'') = Some v"
    by (simp add: dict_update_map_of map_of_rev_distinct)
  from 2 have 3: "hd ?d = (ascii ''ts'', v)"
    by (simp add: ts_merged_first)
  have 4: "distinct (map fst ?d)"
    by (rule dict_update_distinct) simp
  from 1 2 3 4 show ?thesis by blast
qed

theorem ingest_caller_ts_overwrites_witness:
  \<open>media_type \<lparr>content_type = Some ''application/json'', body = ''{"a":1,"ts":5}''\<rparr> =
     ''application/json'' \<and>
   sample_json ''{"a":1,"ts":5}'' = Some (JObj [(ascii ''a'', JInt 1), (ascii ''ts'', JInt 5)]) \<and>
   ingest sample_json \<lparr>content_type = Some ''application/json'', body = ''{"a":1,"ts":5}''\<rparr>
     sample_world =
     (Inr \<lparr>status_code = 202, content = []\<rparr>,
      sample_world\<lparr>log_file := ascii ''{"ts":5,"a":1}\<newline>''\<rparr>)\<close>
proof -
  let ?r = \<open>\<lparr>content_type = Some ''application/json'', body = ''{"a":1,"ts":5}''\<rparr>\<close>
  let ?kvs = "[(ascii ''a'', JInt 1), (ascii ''ts'', JInt 5)]"
  have m: "media_type ?r = ''application/json''" by (simp add: header_eval)
  have p: \<open>sample_json ''{"a":1,"ts":5}'' = Some (JObj ?kvs)\<close>
    by (simp add: sample_json_def)
  then have p': "sample_json (body ?r) = Some (JObj ?kvs)" by simp
  have k: "distinct (map fst ?kvs)" by (simp add: ascii_def)
  have v: "map_of ?kvs (ascii ''ts'') = Some (JInt 5)" by (simp add: ascii_def)
  have l: \<open>write_log_line
      (json_dumps (JObj (dict_update [(ascii ''ts'', JStr (timestamp sample_world))] ?kvs)))
      sample_world = sample_world\<lparr>log_file := ascii ''{"ts":5,"a":1}\<newline>''\<rparr>\<close>
    by (simp add: dict_update_def ascii_def encode_basestring_ascii_def escape_char_def
        int_str_def dec.simps digit_code_def write_log_line_def sample_world_def)
  from ingest_caller_ts_overwrites [of ?r sample_json ?kvs "JInt 5" sample_world, OF m p' k v]
  have \<open>ingest sample_json ?r sample_world =
      (Inr \<lparr>status_code = 202, content = []\<rparr>,
       sample_world\<lparr>log_file := ascii ''{"ts":5,"a":1}\<newline>''\<rparr>)\<close>
    by (simp only: l)
  with m p show ?thesis by blast
qed

subsection \<open>Strings are read back\<close>

lemma hex_val_digit: "d < 16 \<Longrightarrow> hex_val (digit_code d) = Some d"
  by (auto simp: hex_val_def digit_code_def)

lemma hex4_sum:
  "n div 4096 mod 16 * 4096 + n div 256 mod 16 * 256 + n div 16 mod 16 * 16 + n mod 16 =
     (n::nat) mod 65536"
proof -
  have a: "n mod 65536 = n mod 4096 + 4096 * (n div 4096 mod 16)"
    using mod_mult2_eq [of n 4096 16] by simp
  have b: "n mod 4096 = n mod 256 + 256 * (n div 256 mod 16)"
    using mod_mult2_eq [of n 256 16] by simp
  have c: "n mod 256 = n mod 16 + 16 * (n div 16 mod 16)"
    using mod_mult2_eq [of n 16 16] by simp
  from a b c show ?thesis by simp
qed

lemma hex4_val_hex4:
  assumes "n < 65536"
  shows "hex4_val (hex4 n @ rest) = Some n"
proof -
  have "hex4_val (hex4 n @ rest) =
      Some (n div 4096 mod 16 * 4096 + n div 256 mod 16 * 256 + n div 16 mod 16 * 16 + n mod 16)"
    by (simp add: hex4_def hex_val_digit del: mod_div_trivial)
  also have "\<dots> = Some (n mod 65536)"
    by (simp only: hex4_sum)
  also from assms have "\<dots> = Some n"
    by simp
  finally show ?thesis .
qed

lemma length_hex4: "length (hex4 n) = 4"
  by (simp add: hex4_def)

lemma scan_uescape_single:
  assumes "n < 65536" and "\<not> (0xD800 \<le> n \<and> n \<le> 0xDBFF)"
  shows "scan_chars (uescape n @ t) = cons_result n (scan_chars t)"
  using assms by (auto simp: uescape_def hex4_val_hex4 length_hex4)

lemma scan_uescape_pair:
  assumes "0xD800 \<le> hi" and "hi \<le> 0xDBFF" and "0xDC00 \<le> lo" and "lo \<le> 0xDFFF"
  shows "scan_chars (uescape hi @ uescape lo @ t) =
           cons_result (0x10000 + (hi - 0xD800) * 1024 + (lo - 0xDC00)) (scan_chars t)"
proof -
  from assms have h: "hi < 65536" and l: "lo < 65536" by simp_all
  have d4: "drop 4 (hex4 hi @ uescape lo @ t) = uescape lo @ t"
    by (simp add: length_hex4)
  have d6: "drop 6 (hex4 hi @ uescape lo @ t) = hex4 lo @ t"
    by (simp add: length_hex4 uescape_def)
  have d10: "drop 10 (hex4 hi @ uescape lo @ t) = t"
    by (simp add: length_hex4 uescape_def)
  have t2: "take 2 (uescape lo @ t) = [0x5C, 0x75]"
    by (simp add: uescape_def)
  have "scan_chars (uescape hi @ uescape lo @ t) =
      scan_chars (0x5C # 0x75 # hex4 hi @ uescape lo @ t)"
    by (simp add: uescape_def)
  also have "\<dots> = cons_result (0x10000 + (hi - 0xD800) * 1024 + (lo - 0xDC00)) (scan_chars t)"
    using assms
    by (simp add: hex4_val_hex4 [OF h] hex4_val_hex4 [OF l] d4 d6 d10 t2
        del: drop_append take_append)
  finally show ?thesis .
qed

lemma astral_split:
  assumes "0x10000 \<le> c" and "c < 0x110000"
  shows "0x10000 + (0xD800 + (c - 0x10000) div 1024 mod 1024 - 0xD800) * 1024 +
           (0xDC00 + (c - 0x10000) mod 1024 - 0xDC00) = (c::nat)"
proof -
  let ?d = "c - 0x10000"
  from assms have "?d < 1024 * 1024" by simp
  then have "?d div 1024 < 1024"
    by (simp add: less_mult_imp_div_less)
  then have "?d div 1024 mod 1024 * 1024 + ?d mod 1024 = ?d"
    by simp
  with assms show ?thesis by simp
qed

lemma scan_escape_char:
  assumes "scalar_value c"
  shows "scan_chars (escape_char c @ t) = cons_result c (scan_chars t)"
proof (cases "c = 0x22 \<or> c = 0x5C \<or> c = 0x0A \<or> c = 0x0D \<or> c = 0x09 \<or> c = 0x08 \<or> c = 0x0C")
  case True
  then show ?thesis
    by (auto simp: escape_char_def short_escape_def)
next
  case short: False
  show ?thesis
  proof (cases "0x20 \<le> c \<and> c \<le> 0x7E")
    case True
    with short show ?thesis
      by (simp add: escape_char_def)
  next
    case plain: False
    show ?thesis
    proof (cases "c < 0x10000")
      case True
      from assms True have "\<not> (0xD800 \<le> c \<and> c \<le> 0xDBFF)"
        by (auto simp: scalar_value_def)
      from scan_uescape_single [OF True this] short plain True show ?thesis
        by (simp add: escape_char_def)
    next
      case False
      then have lo: "0x10000 \<le> c" by simp
      from assms lo have c: "c < 0x110000" by (simp add: scalar_value_def)
      let ?hi = "0xD800 + (c - 0x10000) div 1024 mod 1024"
      let ?lo = "0xDC00 + (c - 0x10000) mod 1024"
      have r: "0xD800 \<le> ?hi" "?hi \<le> 0xDBFF" "0xDC00 \<le> ?lo" "?lo \<le> 0xDFFF"
        by simp_all
      from lo have e: "escape_char c = uescape ?hi @ uescape ?lo"
        by (simp add: escape_char_def)
      show ?thesis
        unfolding e append_assoc scan_uescape_pair [OF r] astral_split [OF lo c] ..
    qed
  qed
qed

lemma scan_chars_escaped:
  "list_all scalar_value s \<Longrightarrow>
     scan_chars (concat (map escape_char s) @ 0x22 # rest) = Some (s, rest)"
  by (induction s) (simp_all add: scan_escape_char cons_result_def)

lemma scan_chars_string:
  "list_all scalar_value s \<Longrightarrow>
     scan_chars (tl (encode_basestring_ascii s) @ rest) = Some (s, rest)"
  by (simp add: encode_basestring_ascii_def scan_chars_escaped)

subsection \<open>Numbers are read back\<close>

text \<open>What can follow a value in the compact form: the end, a comma or a closing bracket.\<close>

definition delim :: "ustr \<Rightarrow> bool" where
  "delim rest \<longleftrightarrow> (case rest of [] \<Rightarrow> True | c # r \<Rightarrow> c = 0x2C \<or> c = 0x5D \<or> c = 0x7D)"

lemma delim_cases:
  assumes "delim rest"
  obtains "rest = []" | c r where "rest = c # r" "c = 0x2C \<or> c = 0x5D \<or> c = 0x7D"
  using assms by (cases rest) (auto simp: delim_def)

lemma takeWhile_digit_delim: "delim rest \<Longrightarrow> takeWhile is_digit (s @ rest) = takeWhile is_digit s"
  by (induction s) (auto simp: is_digit_def elim!: delim_cases)

lemma dropWhile_digit_delim:
  "delim rest \<Longrightarrow> dropWhile is_digit (s @ rest) = dropWhile is_digit s @ rest"
  by (induction s) (auto simp: is_digit_def elim!: delim_cases)

lemma dec_nonempty: "dec n \<noteq> []"
  by (simp add: dec.simps [of n])

lemma dec_zero: "dec 0 = [48]"
  by (simp add: dec.simps [of 0] digit_code_def)

lemma dec_all_digits: "takeWhile is_digit (dec n) = dec n" "dropWhile is_digit (dec n) = []"
  by (simp_all add: dec_digits)

lemma dec_hd_digit: "is_digit (hd (dec n))"
  using dec_nonempty [of n] dec_digits [of "hd (dec n)" n] by simp

lemma dec_hd_nonzero: "0 < n \<Longrightarrow> hd (dec n) \<noteq> 48"
proof (induction n rule: dec.induct)
  case (1 n)
  show ?case
  proof (cases "n < 10")
    case True
    with "1.prems" show ?thesis
      by (simp add: dec.simps [of n] digit_code_def)
  next
    case False
    then have "0 < n div 10" by (simp add: div_greater_zero_iff)
    with "1.IH" [OF False] False show ?thesis
      by (simp add: dec.simps [of n] dec_nonempty)
  qed
qed

lemma digits_val_snoc: "digits_val (ds @ [c]) = 10 * digits_val ds + (c - 48)"
  by (simp add: digits_val_def)

lemma digits_val_dec: "digits_val (dec n) = n"
proof (induction n rule: dec.induct)
  case (1 n)
  show ?case
  proof (cases "n < 10")
    case True
    then show ?thesis
      by (simp add: dec.simps [of n] digits_val_def digit_code_def)
  next
    case False
    with "1.IH" [OF False] show ?thesis
      by (simp add: dec.simps [of n] digits_val_snoc digit_code_def)
  qed
qed

lemma scan_int_dec: "scan_int (dec n) = Some (dec n, [])"
proof (cases "dec n")
  case Nil
  with dec_nonempty show ?thesis by simp
next
  case (Cons c r)
  from dec_hd_digit [of n] Cons have c: "is_digit c" by simp
  then have m: "c \<noteq> 0x2D" by (simp add: is_digit_def)
  show ?thesis
  proof (cases "n = 0")
    case True
    then show ?thesis
      by (simp add: dec_zero scan_int_def)
  next
    case False
    with dec_hd_nonzero [of n] Cons have "c \<noteq> 48" by simp
    with c m Cons dec_all_digits [of n] show ?thesis
      by (simp add: scan_int_def)
  qed
qed

lemma scan_int_neg: "0 < n \<Longrightarrow> scan_int (0x2D # dec n) = Some (0x2D # dec n, [])"
proof -
  assume n: "0 < n"
  obtain c r where d: "dec n = c # r"
    using dec_nonempty [of n] by (cases "dec n") auto
  from dec_hd_digit [of n] d have c: "is_digit c" by simp
  from dec_hd_nonzero [OF n] d have z: "c \<noteq> 48" by simp
  from c z d dec_all_digits [of n] show ?thesis
    by (simp add: scan_int_def)
qed

lemma scan_int_str: "scan_int (int_str i) = Some (int_str i, [])"
  by (simp add: int_str_def ascii_def scan_int_dec scan_int_neg)

lemma int_val_str: "int_val (int_str i) = i"
proof (cases "i < 0")
  case True
  then show ?thesis
    by (simp add: int_str_def ascii_def int_val_def digits_val_dec)
next
  case False
  obtain c r where d: "dec (nat i) = c # r"
    using dec_nonempty [of "nat i"] by (cases "dec (nat i)") auto
  from dec_hd_digit [of "nat i"] d have "c \<noteq> 0x2D" by (simp add: is_digit_def)
  with False d digits_val_dec [of "nat i"] show ?thesis
    by (simp add: int_str_def int_val_def)
qed

lemma scan_number_int_str: "scan_number (int_str i) = Some (JInt i, [])"
  by (simp add: scan_number_def scan_int_str scan_frac_def scan_exp_def int_val_str)

lemma delim_not_digit:
  "delim (c # r) \<Longrightarrow>
     \<not> is_digit c \<and> c \<noteq> 0x2D \<and> c \<noteq> 0x2B \<and> c \<noteq> 0x2E \<and> c \<noteq> 0x65 \<and> c \<noteq> 0x45 \<and> c \<noteq> 48"
  by (auto simp: delim_def is_digit_def)

lemma scan_int_append:
  assumes "delim rest"
  shows "scan_int (s @ rest) = map_option (\<lambda>(i, s1). (i, s1 @ rest)) (scan_int s)"
proof (cases rest)
  case Nil
  then show ?thesis
    by (cases "scan_int s") auto
next
  case (Cons d r)
  with assms have d: "\<not> is_digit d" "d \<noteq> 0x2D" "d \<noteq> 48"
    using delim_not_digit [of d r] by simp_all
  have tw: "\<And>t. takeWhile is_digit (t @ rest) = takeWhile is_digit t"
    and dw: "\<And>t. dropWhile is_digit (t @ rest) = dropWhile is_digit t @ rest"
    using assms by (simp_all add: takeWhile_digit_delim dropWhile_digit_delim)
  show ?thesis
  proof (cases s)
    case Nil
    with Cons d show ?thesis by (simp add: scan_int_def)
  next
    case s: (Cons c t)
    show ?thesis
    proof (cases "c = 0x2D")
      case True
      show ?thesis
      proof (cases t)
        case Nil
        with True s Cons d show ?thesis by (simp add: scan_int_def)
      next
        case (Cons c' u)
        with True s show ?thesis
          by (simp add: scan_int_def tw dw)
      qed
    next
      case False
      with s show ?thesis
        by (simp add: scan_int_def tw dw)
    qed
  qed
qed

lemma scan_frac_append:
  assumes "delim rest"
  shows "scan_frac (s @ rest) = (fst (scan_frac s), snd (scan_frac s) @ rest)"
proof (cases rest)
  case Nil
  then show ?thesis by simp
next
  case (Cons d r)
  with assms have d: "\<not> is_digit d" "d \<noteq> 0x2E"
    using delim_not_digit [of d r] by simp_all
  have tw: "\<And>t. takeWhile is_digit (t @ rest) = takeWhile is_digit t"
    and dw: "\<And>t. dropWhile is_digit (t @ rest) = dropWhile is_digit t @ rest"
    using assms by (simp_all add: takeWhile_digit_delim dropWhile_digit_delim)
  show ?thesis
  proof (cases s)
    case Nil
    with Cons d show ?thesis
      by (cases r) (simp_all add: scan_frac_def)
  next
    case s: (Cons c t)
    show ?thesis
    proof (cases t)
      case Nil
      with s Cons d show ?thesis by (simp add: scan_frac_def)
    next
      case (Cons c' u)
      with s show ?thesis
        by (simp add: scan_frac_def tw dw)
    qed
  qed
qed

lemma scan_exp_append:
  assumes "delim rest"
  shows "scan_exp (s @ rest) = (fst (scan_exp s), snd (scan_exp s) @ rest)"
proof (cases rest)
  case Nil
  then show ?thesis by simp
next
  case (Cons d r)
  with assms have d: "\<not> is_digit d" "d \<noteq> 0x65" "d \<noteq> 0x45" "d \<noteq> 0x2B" "d \<noteq> 0x2D"
    using delim_not_digit [of d r] by simp_all
  have tw: "\<And>t. takeWhile is_digit (t @ rest) = takeWhile is_digit t"
    and dw: "\<And>t. dropWhile is_digit (t @ rest) = dropWhile is_digit t @ rest"
    using assms by (simp_all add: takeWhile_digit_delim dropWhile_digit_delim)
  show ?thesis
  proof (cases s)
    case Nil
    with Cons d show ?thesis by (simp add: scan_exp_def)
  next
    case s: (Cons c t)
    show ?thesis
    proof (cases "c = 0x65 \<or> c = 0x45")
      case False
      with s show ?thesis by (simp add: scan_exp_def)
    next
      case e: True
      show ?thesis
      proof (cases t)
        case Nil
        with s e Cons d show ?thesis by (auto simp: scan_exp_def)
      next
        case t: (Cons x u)
        show ?thesis
        proof (cases "x = 0x2B \<or> x = 0x2D")
          case True
          show ?thesis
          proof (cases u)
            case Nil
            with s e t True Cons d show ?thesis by (auto simp: scan_exp_def)
          next
            case (Cons y v)
            with s e t True show ?thesis
              by (auto simp: scan_exp_def tw dw)
          qed
        next
          case False
          with s e t show ?thesis
            by (auto simp: scan_exp_def tw dw)
        qed
      qed
    qed
  qed
qed

lemma scan_number_append:
  assumes "delim rest"
  shows "scan_number (s @ rest) = map_option (\<lambda>(v, t). (v, t @ rest)) (scan_number s)"
proof (cases "scan_int s")
  case None
  with scan_int_append [OF assms, of s] show ?thesis
    by (simp add: scan_number_def)
next
  case (Some p)
  obtain i s1 where p: "p = (i, s1)" by (cases p)
  from Some p scan_int_append [OF assms, of s]
  have i: "scan_int (s @ rest) = Some (i, s1 @ rest)" by simp
  obtain f s2 where f: "scan_frac s1 = (f, s2)" by (cases "scan_frac s1")
  with scan_frac_append [OF assms, of s1]
  have f': "scan_frac (s1 @ rest) = (f, s2 @ rest)" by simp
  obtain e s3 where e: "scan_exp s2 = (e, s3)" by (cases "scan_exp s2")
  with scan_exp_append [OF assms, of s2]
  have e': "scan_exp (s2 @ rest) = (e, s3 @ rest)" by simp
  from Some p i f f' e e' show ?thesis
    by (simp add: scan_number_def)
qed

lemma scan_number_head:
  assumes "scan_number s = Some res"
  obtains c r where "s = c # r" "c = 0x2D \<or> is_digit c"
proof -
  from assms obtain p where "scan_int s = Some p"
    by (cases "scan_int s") (auto simp: scan_number_def)
  then have "\<exists>c r. s = c # r \<and> (c = 0x2D \<or> is_digit c)"
    by (cases s) (auto simp: scan_int_def is_digit_def split: if_splits list.splits)
  with that show ?thesis by blast
qed

subsection \<open>Values are read back\<close>

lemma scan_value_number:
  assumes "scan_number s = Some res"
  shows "scan_value (Suc fuel) s = Some res"
proof -
  from assms obtain c r where s: "s = c # r" and c: "c = 0x2D \<or> is_digit c"
    by (rule scan_number_head)
  from c have "c \<noteq> 0x22" "c \<noteq> 0x7B" "c \<noteq> 0x5B" "c \<noteq> 0x6E" "c \<noteq> 0x74" "c \<noteq> 0x66"
    by (auto simp: is_digit_def)
  with assms s show ?thesis by simp
qed

lemma scan_value_int:
  assumes "delim rest"
  shows "scan_value (Suc fuel) (int_str i @ rest) = Some (JInt i, rest)"
proof -
  from scan_number_append [OF assms, of "int_str i"]
  have "scan_number (int_str i @ rest) = Some (JInt i, rest)"
    by (simp add: scan_number_int_str)
  then show ?thesis by (rule scan_value_number)
qed

lemma scan_number_words:
  "scan_number (ascii ''NaN'') = None" "scan_number (ascii ''Infinity'') = None"
  "scan_number (ascii ''-Infinity'') = None"
  by (simp_all add: scan_number_def scan_int_def ascii_def is_digit_def)

lemma scan_value_float:
  assumes "float_token t" and "delim rest"
  shows "scan_value (Suc fuel) (t @ rest) = Some (JFloat t, rest)"
proof -
  note a = scan_number_append [OF assms(2)]
  consider "t = ascii ''NaN''" | "t = ascii ''Infinity''" | "t = ascii ''-Infinity''"
    | "scan_number t = Some (JFloat t, [])"
    using assms(1) by (auto simp: float_token_def)
  then show ?thesis
  proof cases
    case 1
    from a [of t] 1 have "scan_number (t @ rest) = None"
      by (simp add: scan_number_words)
    with 1 show ?thesis
      by (simp add: ascii_def scan_word_def)
  next
    case 2
    from a [of t] 2 have "scan_number (t @ rest) = None"
      by (simp add: scan_number_words)
    with 2 show ?thesis
      by (simp add: ascii_def scan_word_def)
  next
    case 3
    from a [of t] 3 have "scan_number (t @ rest) = None"
      by (simp add: scan_number_words)
    with 3 show ?thesis
      by (simp add: ascii_def scan_word_def)
  next
    case 4
    with a [of t] have "scan_number (t @ rest) = Some (JFloat t, rest)"
      by simp
    then show ?thesis by (rule scan_value_number)
  qed
qed

lemma scan_value_words:
  "scan_value (Suc fuel) (ascii ''null'' @ rest) = Some (JNull, rest)"
  "scan_value (Suc fuel) (ascii ''true'' @ rest) = Some (JBool True, rest)"
  "scan_value (Suc fuel) (ascii ''false'' @ rest) = Some (JBool False, rest)"
  by (simp_all add: ascii_def scan_word_def)

lemma scan_value_string:
  assumes "list_all scalar_value s"
  shows "scan_value (Suc fuel) (encode_basestring_ascii s @ rest) = Some (JStr s, rest)"
  using scan_chars_escaped [OF assms, of rest]
  by (simp add: encode_basestring_ascii_def)

lemma float_token_head:
  assumes "float_token t"
  obtains c r where "t = c # r" "c \<noteq> 0x5D" "c \<noteq> 0x7D"
proof -
  consider "t = ascii ''NaN''" | "t = ascii ''Infinity''" | "t = ascii ''-Infinity''"
    | "scan_number t = Some (JFloat t, [])"
    using assms by (auto simp: float_token_def)
  then have "\<exists>c r. t = c # r \<and> c \<noteq> 0x5D \<and> c \<noteq> 0x7D"
  proof cases
    case 4
    then obtain c r where "t = c # r" "c = 0x2D \<or> is_digit c"
      by (rule scan_number_head)
    then show ?thesis by (auto simp: is_digit_def)
  qed (simp_all add: ascii_def)
  with that show ?thesis by blast
qed

lemma int_str_head: obtains c r where "int_str i = c # r" "c \<noteq> 0x5D" "c \<noteq> 0x7D"
proof -
  from scan_number_int_str [of i] obtain c r where "int_str i = c # r" "c = 0x2D \<or> is_digit c"
    by (rule scan_number_head)
  then have "\<exists>c r. int_str i = c # r \<and> c \<noteq> 0x5D \<and> c \<noteq> 0x7D"
    by (auto simp: is_digit_def)
  with that show ?thesis by blast
qed

lemma json_dumps_head:
  assumes "json_ok v"
  obtains c r where "json_dumps v = c # r" "c \<noteq> 0x5D" "c \<noteq> 0x7D"
proof -
  have "\<exists>c r. json_dumps v = c # r \<and> c \<noteq> 0x5D \<and> c \<noteq> 0x7D"
  proof (cases v)
    case (JInt i)
    then show ?thesis using int_str_head [of i] by (metis json_dumps.simps(3))
  next
    case (JFloat t)
    with assms have "float_token t" by simp
    then show ?thesis using JFloat by (metis float_token_head json_dumps.simps(4))
  qed (simp_all add: ascii_def encode_basestring_ascii_def)
  with that show ?thesis by blast
qed

lemma dict_update_distinct_append:
  "distinct (map fst (d @ kvs)) \<Longrightarrow> dict_update d kvs = d @ kvs"
  unfolding dict_update_def
proof (induction kvs arbitrary: d)
  case Nil
  show ?case by simp
next
  case (Cons p kvs)
  obtain k v where p: "p = (k, v)" by (cases p)
  from Cons.prems p have k: "k \<notin> fst ` set d" by auto
  have s: "dict_setitem k v d = d @ [(k, v)]"
    using k by (induction d) auto
  from Cons.prems have "distinct (map fst ((d @ [(k, v)]) @ kvs))"
    by (simp add: p)
  from Cons.IH [OF this] show ?case
    by (simp add: p s)
qed

lemma dict_of_distinct: "distinct (map fst kvs) \<Longrightarrow> dict_update [] kvs = kvs"
  using dict_update_distinct_append [of "[]" kvs] by simp

lemma dumps_items_head:
  assumes "items_ok (x # xs)"
  obtains c r where "dumps_items (x # xs) = c # r" "c \<noteq> 0x5D"
proof -
  from assms have "json_ok x" by simp
  then obtain c r where "json_dumps x = c # r" "c \<noteq> 0x5D"
    by (rule json_dumps_head)
  then have "\<exists>c r. dumps_items (x # xs) = c # r \<and> c \<noteq> 0x5D"
    by (cases xs) simp_all
  with that show ?thesis by blast
qed

lemma dumps_members_head:
  obtains r where "dumps_members (p # kvs) = 0x22 # r"
proof -
  obtain k v where "p = (k, v)" by (cases p)
  then have "\<exists>r. dumps_members (p # kvs) = 0x22 # r"
    by (cases kvs) (simp_all add: encode_basestring_ascii_def)
  with that show ?thesis by blast
qed

lemma scan_members_step:
  assumes k: "list_all scalar_value k"
    and v: "scan_value fuel (json_dumps v @ c # rest) = Some (v, c # rest)"
  shows "scan_members (Suc fuel)
           (encode_basestring_ascii k @ ascii '':'' @ json_dumps v @ c # rest) =
         (if c = 0x2C then cons_result (k, v) (scan_members fuel rest)
          else if c = 0x7D then Some ([(k, v)], rest) else None)"
proof -
  have eq: "encode_basestring_ascii k @ ascii '':'' @ json_dumps v @ c # rest =
      0x22 # concat (map escape_char k) @ 0x22 # (0x3A # json_dumps v @ c # rest)"
    by (simp add: encode_basestring_ascii_def ascii_def)
  show ?thesis
    unfolding eq
    using scan_chars_escaped [OF k, of "0x3A # json_dumps v @ c # rest"] v
    by simp
qed

lemma scan_items_step:
  assumes "scan_value fuel (json_dumps v @ c # rest) = Some (v, c # rest)"
  shows "scan_items (Suc fuel) (json_dumps v @ c # rest) =
         (if c = 0x2C then cons_result v (scan_items fuel rest)
          else if c = 0x5D then Some ([v], rest) else None)"
  using assms by simp

lemma scan_value_array:
  assumes "scan_items fuel (c # r @ 0x5D # rest) = Some (xs, rest)" and "c \<noteq> 0x5D"
  shows "scan_value (Suc fuel) (ascii ''['' @ (c # r) @ ascii '']'' @ rest) = Some (JArr xs, rest)"
  using assms by (simp add: ascii_def)

lemma scan_value_object:
  assumes "scan_members fuel (0x22 # r @ 0x7D # rest) = Some (kvs, rest)"
    and "dict_update [] kvs = kvs"
  shows "scan_value (Suc fuel) (ascii ''{'' @ (0x22 # r) @ ascii ''}'' @ rest) =
           Some (JObj kvs, rest)"
  using assms by (simp add: ascii_def)

lemma scan_value_empty:
  "scan_value (Suc fuel) (ascii ''['' @ [] @ ascii '']'' @ rest) = Some (JArr [], rest)"
  "scan_value (Suc fuel) (ascii ''{'' @ [] @ ascii ''}'' @ rest) = Some (JObj [], rest)"
  by (simp_all add: ascii_def)

declare scan_value.simps [simp del] scan_items.simps [simp del] scan_members.simps [simp del]

lemma delim_simps: "delim (0x2C # r)" "delim (0x5D # r)" "delim (0x7D # r)" "delim []"
  by (simp_all add: delim_def)

lemma scan_roundtrip:
  "json_ok v \<Longrightarrow> delim rest \<Longrightarrow> length (json_dumps v) \<le> fuel \<Longrightarrow>
     scan_value fuel (json_dumps v @ rest) = Some (v, rest)"
  "items_ok xs \<Longrightarrow> xs \<noteq> [] \<Longrightarrow> length (dumps_items xs) < fuel \<Longrightarrow>
     scan_items fuel (dumps_items xs @ 0x5D # rest) = Some (xs, rest)"
  "members_ok kvs \<Longrightarrow> kvs \<noteq> [] \<Longrightarrow> length (dumps_members kvs) < fuel \<Longrightarrow>
     scan_members fuel (dumps_members kvs @ 0x7D # rest) = Some (kvs, rest)"
proof (induction v and xs and kvs arbitrary: fuel rest and fuel rest and fuel rest
    rule: json_dumps_dumps_items_dumps_members.induct)
  case 1
  then obtain f where "fuel = Suc f" by (cases fuel) (auto simp: ascii_def)
  then show ?case by (simp add: scan_value_words)
next
  case (2 b)
  then obtain f where "fuel = Suc f" by (cases fuel; cases b) (auto simp: ascii_def)
  then show ?case by (simp add: scan_value_words)
next
  case (3 i)
  obtain c r where "int_str i = c # r" by (rule int_str_head)
  with 3 obtain f where "fuel = Suc f" by (cases fuel) auto
  with 3 show ?case by (simp add: scan_value_int)
next
  case (4 t)
  then have t: "float_token t" by simp
  then obtain c r where "t = c # r" by (rule float_token_head)
  with 4 obtain f where "fuel = Suc f" by (cases fuel) auto
  with 4 t show ?case by (simp add: scan_value_float)
next
  case (5 s)
  then obtain f where "fuel = Suc f"
    by (cases fuel) (auto simp: encode_basestring_ascii_def)
  with 5 show ?case by (simp add: scan_value_string)
next
  case (6 xs)
  from "6.prems" obtain f where f: "fuel = Suc f" by (cases fuel) (auto simp: ascii_def)
  show ?case
  proof (cases xs)
    case Nil
    with f scan_value_empty(1) [of f rest] show ?thesis by simp
  next
    case (Cons x ys)
    with "6.prems" have ok: "items_ok (x # ys)" by simp
    then obtain c r where h: "dumps_items (x # ys) = c # r" "c \<noteq> 0x5D"
      by (rule dumps_items_head)
    from "6.prems" f have "length (dumps_items xs) < f"
      by (simp add: ascii_def)
    from "6.IH" [OF _ _ this, of rest] ok Cons h
    have "scan_items f (c # r @ 0x5D # rest) = Some (xs, rest)" by simp
    from scan_value_array [OF this h(2)] h f Cons show ?thesis
      by simp
  qed
next
  case (7 kvs)
  from "7.prems" obtain f where f: "fuel = Suc f" by (cases fuel) (auto simp: ascii_def)
  from "7.prems" have d: "dict_update [] kvs = kvs"
    by (simp add: dict_of_distinct)
  show ?case
  proof (cases kvs)
    case Nil
    with f scan_value_empty(2) [of f rest] show ?thesis by simp
  next
    case (Cons p ps)
    obtain r where h: "dumps_members (p # ps) = 0x22 # r"
      by (rule dumps_members_head)
    from "7.prems" f have "length (dumps_members kvs) < f"
      by (simp add: ascii_def)
    from "7.IH" [OF _ _ this, of rest] "7.prems" Cons h
    have "scan_members f (0x22 # r @ 0x7D # rest) = Some (kvs, rest)" by simp
    from scan_value_object [OF this d] h f Cons show ?thesis
      by simp
  qed
next
  case 8
  then show ?case by simp
next
  case (9 x)
  from "9.prems" obtain f where f: "fuel = Suc f" by (cases fuel) auto
  from "9.prems" f have "length (json_dumps x) \<le> f" by simp
  from "9.IH" [OF _ _ this, of "0x5D # rest"] "9.prems"
  have "scan_value f (json_dumps x @ 0x5D # rest) = Some (x, 0x5D # rest)"
    by (simp add: delim_simps)
  from scan_items_step [OF this] f show ?case by simp
next
  case (10 x y ys)
  from "10.prems" obtain f where f: "fuel = Suc f" by (cases fuel) auto
  let ?rest = "dumps_items (y # ys) @ 0x5D # rest"
  from "10.prems" f have "length (json_dumps x) \<le> f" by simp
  from "10.IH"(1) [OF _ _ this, of "0x2C # ?rest"] "10.prems"
  have v: "scan_value f (json_dumps x @ 0x2C # ?rest) = Some (x, 0x2C # ?rest)"
    by (simp add: delim_simps)
  from "10.prems" f have "length (dumps_items (y # ys)) < f" by (simp add: ascii_def)
  from "10.IH"(2) [OF _ _ this, of rest] "10.prems"
  have "scan_items f ?rest = Some (y # ys, rest)" by simp
  with scan_items_step [OF v] f show ?case
    by (simp add: ascii_def cons_result_def)
next
  case 11
  then show ?case by simp
next
  case (12 k v)
  from "12.prems" obtain f where f: "fuel = Suc f" by (cases fuel) auto
  from "12.prems" have k: "list_all scalar_value k" by simp
  from "12.prems" f have "length (json_dumps v) \<le> f" by simp
  from "12.IH" [OF _ _ this, of "0x7D # rest"] "12.prems"
  have "scan_value f (json_dumps v @ 0x7D # rest) = Some (v, 0x7D # rest)"
    by (simp add: delim_simps)
  from scan_members_step [OF k this] f show ?case by simp
next
  case (13 k v m ms)
  from "13.prems" obtain f where f: "fuel = Suc f" by (cases fuel) auto
  let ?rest = "dumps_members (m # ms) @ 0x7D # rest"
  from "13.prems" have k: "list_all scalar_value k" by simp
  from "13.prems" f have "length (json_dumps v) \<le> f" by simp
  from "13.IH"(1) [OF _ _ this, of "0x2C # ?rest"] "13.prems"
  have v: "scan_value f (json_dumps v @ 0x2C # ?rest) = Some (v, 0x2C # ?rest)"
    by (simp add: delim_simps)
  from "13.prems" f have "length (dumps_members (m # ms)) < f" by (simp add: ascii_def)
  from "13.IH"(2) [OF _ _ this, of rest] "13.prems"
  have "scan_members f ?rest = Some (m # ms, rest)" by simp
  with scan_members_step [OF k v] f show ?case
    by (simp add: ascii_def cons_result_def)
qed

lemma json_loads_dumps: "json_ok v \<Longrightarrow> json_loads (json_dumps v) = Some v"
  using scan_roundtrip(1) [of v "[]" "length (json_dumps v)"]
  by (simp add: json_loads_def delim_simps)

subsection \<open>The logged JSON object\<close>

lemma digit_code_ascii: "d < 16 \<Longrightarrow> 48 \<le> digit_code d \<and> digit_code d < 128"
  by (simp add: digit_code_def)










text \<open>
  Why the object must be one the reader gives back unchanged: the writer escapes the
  two code points of a surrogate pair exactly as it escapes the one code point above
  U+FFFF that the pair encodes, so a key made of the two is read back as the one.
\<close>

lemma surrogate_pair_key_not_read_back:
  "json_dumps (JObj [([0xD800, 0xDC00], JInt 1)]) = json_dumps (JObj [([0x10000], JInt 1)]) \<and>
   json_loads (json_dumps (JObj [([0xD800, 0xDC00], JInt 1)])) = Some (JObj [([0x10000], JInt 1)])"
proof -
  have e: "json_dumps (JObj [([0xD800, 0xDC00], JInt 1)]) = json_dumps (JObj [([0x10000], JInt 1)])"
    by (simp add: encode_basestring_ascii_def escape_char_def)
  have "json_ok (JObj [([0x10000], JInt 1)])" by (simp add: scalar_value_def)
  from json_loads_dumps [OF this] e show ?thesis by (simp only:)
qed

subsection \<open>One request, one append\<close>























lemma scalar_simps: "scalar_value 0xFFFD" "b < 128 \<Longrightarrow> scalar_value b"
  by (simp_all add: scalar_value_def)

lemma two_byte_scalar:
  assumes "b0 < 224" "is_cont b1"
  shows "scalar_value ((b0 - 192) * 64 + (b1 - 128))"
proof -
  from assms have "b0 - 192 \<le> 31" "b1 - 128 \<le> 63"
    by (auto simp: is_cont_def)
  then have "(b0 - 192) * 64 + (b1 - 128) < 0xD800" by linarith
  then show ?thesis by (simp add: scalar_value_def)
qed

lemma three_byte_scalar:
  assumes "224 \<le> b0" "b0 < 240" "is_cont b1" "is_cont b2" "\<not> (b0 = 237 \<and> 160 \<le> b1)"
  shows "scalar_value ((b0 - 224) * 4096 + (b1 - 128) * 64 + (b2 - 128))"
proof -
  let ?v = "(b0 - 224) * 4096 + (b1 - 128) * 64 + (b2 - 128)"
  from assms have y: "b1 - 128 \<le> 63" and z: "b2 - 128 \<le> 63"
    by (auto simp: is_cont_def)
  show ?thesis
  proof (cases "b0 < 237")
    case True
    then have "b0 - 224 \<le> 12" by simp
    with y z have "?v < 0xD800" by linarith
    then show ?thesis by (simp add: scalar_value_def)
  next
    case False
    show ?thesis
    proof (cases "b0 = 237")
      case True
      with assms have "b0 - 224 = 13" "b1 - 128 \<le> 31" by simp_all
      with z have "?v < 0xD800" by linarith
      then show ?thesis by (simp add: scalar_value_def)
    next
      case ne: False
      with False assms have "14 \<le> b0 - 224" "b0 - 224 \<le> 15" by simp_all
      with y z have "0xE000 \<le> ?v" "?v < 0x110000" by linarith+
      then show ?thesis by (simp add: scalar_value_def)
    qed
  qed
qed

lemma four_byte_scalar:
  assumes "240 \<le> b0" "b0 < 245" "is_cont b1" "is_cont b2" "is_cont b3"
    "\<not> (b0 = 240 \<and> b1 < 144)" "\<not> (b0 = 244 \<and> 144 \<le> b1)"
  shows "scalar_value ((b0 - 240) * 262144 + (b1 - 128) * 4096 + (b2 - 128) * 64 + (b3 - 128))"
proof -
  let ?v = "(b0 - 240) * 262144 + (b1 - 128) * 4096 + (b2 - 128) * 64 + (b3 - 128)"
  from assms have y: "b1 - 128 \<le> 63" and z: "b2 - 128 \<le> 63" and u: "b3 - 128 \<le> 63"
    by (auto simp: is_cont_def)
  have "0x10000 \<le> ?v \<and> ?v < 0x110000"
  proof (cases "b0 = 240")
    case True
    with assms have "b0 - 240 = 0" "16 \<le> b1 - 128" by simp_all
    with y z u show ?thesis by linarith
  next
    case False
    show ?thesis
    proof (cases "b0 = 244")
      case True
      with assms have "b0 - 240 = 4" "b1 - 128 \<le> 15" by simp_all
      with z u show ?thesis by linarith
    next
      case ne: False
      with False assms have "1 \<le> b0 - 240" "b0 - 240 \<le> 3" by simp_all
      with y z u show ?thesis by linarith
    qed
  qed
  then show ?thesis by (simp add: scalar_value_def)
qed

lemma decode_utf8_scalar: "list_all scalar_value (decode_utf8 bs)"
proof (induction bs rule: length_induct)
  case (1 bs)
  then have IH: "\<And>ys. length ys < length bs \<Longrightarrow> list_all scalar_value (decode_utf8 ys)"
    by simp
  show ?case
  proof (cases bs)
    case Nil
    then show ?thesis by simp
  next
    case (Cons b0 r)
    with IH have r: "list_all scalar_value (decode_utf8 r)" by simp
    show ?thesis
    proof (cases r)
      case Nil
      with Cons show ?thesis by (simp add: scalar_simps)
    next
      case r1: (Cons b1 r1)
      with Cons IH have r1': "list_all scalar_value (decode_utf8 r1)" by simp
      show ?thesis
      proof (cases r1)
        case Nil
        with Cons r1 r show ?thesis
          by (simp add: scalar_simps two_byte_scalar)
      next
        case r2: (Cons b2 r2)
        with Cons r1 IH have r2': "list_all scalar_value (decode_utf8 r2)" by simp
        show ?thesis
        proof (cases r2)
          case Nil
          with Cons r1 r2 r r1' show ?thesis
            by (simp add: scalar_simps two_byte_scalar three_byte_scalar)
        next
          case r3: (Cons b3 r3)
          with Cons r1 r2 IH have r3': "list_all scalar_value (decode_utf8 r3)" by simp
          from Cons r1 r2 r3 r r1' r2' r3' show ?thesis
            by (simp add: scalar_simps two_byte_scalar three_byte_scalar four_byte_scalar)
        qed
      qed
    qed
  qed
qed

end
